theory Spec2Isabelle
  imports Main "HOL-Library.Sublist" "HOL-Library.Signed_Division"
begin

section \<open>Parallel range search over a series (search.go)\<close>

text \<open>
  The development embeds the function \<^verbatim>\<open>Search\<close> of \<^verbatim>\<open>search.go\<close>. Go's \<^verbatim>\<open>int\<close> is
  modelled by \<^typ>\<open>int\<close>: every quantity the function computes lies between \<open>-1\<close> and
  the row count of the series as long as the resolved range satisfies
  \<open>0 \<le> start \<le> end < NRows\<close>, so no 64-bit operation wraps. Go's integer
  division truncates towards zero, which is \<open>sdiv\<close>.
\<close>

subsection \<open>Data\<close>

datatype error = InvalidRangeError | Canceled | DeadlineExceeded

text \<open>
  \<^verbatim>\<open>Range{Start *int; End *int}\<close>: a pointer field is \<open>None\<close> when it is \<^verbatim>\<open>nil\<close>.
\<close>

record Range =
  Start :: "int option"
  End :: "int option"

text \<open>
  The \<^verbatim>\<open>Series\<close> interface, as far as \<^verbatim>\<open>Search\<close> uses it. Its declaration is not part
  of \<^verbatim>\<open>search.go\<close>, so a series is the record of the four methods that are called:
  \<^verbatim>\<open>NRows\<close>, \<^verbatim>\<open>Value\<close>, \<^verbatim>\<open>IsEqualFunc\<close> and \<^verbatim>\<open>IsLessThanFunc\<close> (all with
  \<^verbatim>\<open>DontLock\<close>; \<^verbatim>\<open>Lock\<close> and \<^verbatim>\<open>Unlock\<close> do not influence the result and are left out).
  \<open>Value\<close> is a total function here; what an implementation does at a row outside
  \<open>[0, NRows)\<close> is not modelled, and lemma \<open>fetched_within\<close> shows which rows are
  fetched.
\<close>

record 'v Series =
  NRows :: int
  Value :: "int \<Rightarrow> 'v"
  IsEqualFunc :: "'v \<Rightarrow> 'v \<Rightarrow> bool"
  IsLessThanFunc :: "'v \<Rightarrow> 'v \<Rightarrow> bool"

text \<open>
  What \<^verbatim>\<open>Search\<close> takes from outside \<^verbatim>\<open>search.go\<close>:
  \<^item> \<open>NumCPU\<close>: the value of \<^verbatim>\<open>runtime.NumCPU()\<close>;
  \<^item> \<open>cmp_Panics\<close> and \<open>cmp_Equal\<close>: the call
    \<^verbatim>\<open>cmp.Equal(x, y, cmpopts.IgnoreUnexported())\<close> of line 27. The call does not always
    return: \<^verbatim>\<open>IgnoreUnexported\<close> is given no struct type, so it ignores no field, and
    \<^verbatim>\<open>cmp.Equal\<close> panics when it meets an unexported field that no option covers.
    \<open>cmp_Panics x y\<close> says that the call panics; when it does not, \<open>cmp_Equal x y\<close> is
    the value it returns;
  \<^item> \<open>Limits\<close>: the method \<^verbatim>\<open>(*Range).Limits\<close>, which returns \<open>Inl\<close> of its error or
    \<open>Inr (start, end)\<close>;
  \<^item> \<open>finish\<close>: the order in which the goroutines started by \<^verbatim>\<open>g.Go\<close> run their deferred
    commit to \<^verbatim>\<open>mapRows\<close> and return. The scheduler chooses it.
\<close>

record 'v Env =
  NumCPU :: int
  cmp_Panics :: "'v \<Rightarrow> 'v \<Rightarrow> bool"
  cmp_Equal :: "'v \<Rightarrow> 'v \<Rightarrow> bool"
  Limits :: "Range \<Rightarrow> int \<Rightarrow> error + int \<times> int"
  finish :: "int list"

text \<open>
  The context. \<^verbatim>\<open>ctx.Err()\<close> returns \<^verbatim>\<open>nil\<close> until the context is cancelled and the same
  non-nil error ever after. A goroutine therefore sees \<^verbatim>\<open>nil\<close> at its first \<open>n\<close> calls and
  the error from then on, where \<open>n\<close> depends on when the caller cancels and on how far the
  scheduler has let this goroutine run: \<open>nil_checks ctx i = Some n\<close> for goroutine \<open>i\<close>,
  and \<open>None\<close> when the context is not cancelled while goroutine \<open>i\<close> runs. With
  \<open>Some n\<close> the context is cancelled while goroutine \<open>i\<close> runs, after its call number
  \<open>n\<close> has returned \<^verbatim>\<open>nil\<close>; when its sub-range has no more than \<open>n\<close> rows, that is after
  its last check (during its last \<^verbatim>\<open>s.Value\<close> or comparison, or before it returns), and the
  goroutine never asks again.
\<close>

record Context =
  reason :: error
  nil_checks :: "int \<Rightarrow> nat option"

definition ctx_Err :: "Context \<Rightarrow> int \<Rightarrow> nat \<Rightarrow> error option" where
  \<comment> \<open>the result of the call number \<open>k\<close> (from 0) of \<^verbatim>\<open>ctx.Err()\<close> in goroutine \<open>i\<close>\<close>
  "ctx_Err ctx i k =
     (case nil_checks ctx i of
        None \<Rightarrow> None
      | Some n \<Rightarrow> if k < n then None else Some (reason ctx))"

text \<open>
  What one goroutine leaves behind: \<open>rowsFound\<close> as committed to \<^verbatim>\<open>mapRows\<close> by the
  deferred function, the error it returns to the \<^verbatim>\<open>errgroup\<close>, and (not a value of the
  program, recorded to state claims about it) the rows it passed to \<^verbatim>\<open>s.Value\<close>.
\<close>

record Scanned =
  found :: "int list"
  failure :: "error option"
  visited :: "int list"

text \<open>
  What \<^verbatim>\<open>Search\<close> returns, \<^verbatim>\<open>([]int, error)\<close>, together with two observations of the run:
  the sub-ranges it built and, for every goroutine in index order, the rows it fetched.
\<close>

record Outcome =
  ret_rows :: "int list"
  ret_err :: "error option"
  built :: "Range list"
  fetched :: "int list list"

subsection \<open>The partitioning loop (lines 39 to 60)\<close>

text \<open>
  The loop \<^verbatim>\<open>for i := 0; i < nCores; i++\<close> that fills \<^verbatim>\<open>subRanges\<close>. \<open>dv\<close> is the
  variable \<^verbatim>\<open>div\<close>. \<^verbatim>\<open>subStart\<close> and \<^verbatim>\<open>subEnd\<close> are declared inside the body, so the
  pointers stored at one index are shared with no other index.
\<close>

function partition_loop :: "int \<Rightarrow> int \<Rightarrow> int \<Rightarrow> int \<Rightarrow> Range list \<Rightarrow> Range list" where
  "partition_loop nCores dv end i subRanges =
     (if i < nCores then
        (let (subStart, subEnd) =
               (if i \<noteq> nCores - 1 then (i * dv, (i + 1) * dv - 1)
                else (i * dv, end))
         in partition_loop nCores dv end (i + 1)
              (subRanges @ [\<lparr>Start = Some subStart, End = Some subEnd\<rparr>]))
      else subRanges)"
  by pat_completeness auto
termination
  by (relation "measure (\<lambda>(nCores, dv, end, i, subRanges). nat (nCores - i))") auto

subsection \<open>One goroutine (lines 70 to 103)\<close>

text \<open>
  The loop \<^verbatim>\<open>for row := *Start; row < *End+1; row++\<close>. \<open>k\<close> counts the calls of
  \<^verbatim>\<open>ctx.Err()\<close> this goroutine has made.
\<close>

function scan_loop ::
  "Context \<Rightarrow> 'v Series \<Rightarrow> bool \<Rightarrow> 'v \<Rightarrow> 'v \<Rightarrow> int \<Rightarrow> int \<Rightarrow> int \<Rightarrow> nat \<Rightarrow> int list \<Rightarrow> int list
     \<Rightarrow> Scanned" where
  "scan_loop ctx s equalCheck lower upper i subEnd row k rowsFound seen =
     (if row < subEnd + 1 then
        (case ctx_Err ctx i k of
           Some err \<Rightarrow> \<lparr>found = rowsFound, failure = Some err, visited = seen\<rparr>
         | None \<Rightarrow>
             (let val = Value s row;
                  rowsFound' =
                    (if equalCheck then
                       (if IsEqualFunc s val lower then rowsFound @ [row] else rowsFound)
                     else
                       (if \<not> IsLessThanFunc s val lower
                           \<and> (IsLessThanFunc s val upper \<or> IsEqualFunc s val upper)
                        then rowsFound @ [row] else rowsFound))
              in scan_loop ctx s equalCheck lower upper i subEnd (row + 1) (Suc k)
                   rowsFound' (seen @ [row])))
      else \<lparr>found = rowsFound, failure = None, visited = seen\<rparr>)"
  by pat_completeness auto
termination
  by (relation "measure (\<lambda>(ctx, s, equalCheck, lower, upper, i, subEnd, row, k, rowsFound, seen).
                  nat (subEnd + 1 - row))") auto

text \<open>
  The function passed to \<^verbatim>\<open>g.Go\<close> for index \<open>i\<close>. \<^verbatim>\<open>subRanges[i]\<close> is read at an index
  below \<^verbatim>\<open>len(subRanges)\<close> and both pointers of every sub-range are non-nil
  (lemma \<open>partition_loop_nth\<close> below), so \<open>!\<close> and \<open>the\<close> are applied where they are
  defined.
\<close>

definition goroutine ::
  "Context \<Rightarrow> 'v Series \<Rightarrow> bool \<Rightarrow> 'v \<Rightarrow> 'v \<Rightarrow> Range list \<Rightarrow> int \<Rightarrow> Scanned" where
  "goroutine ctx s equalCheck lower upper subRanges i =
     scan_loop ctx s equalCheck lower upper i (the (End (subRanges ! nat i)))
       (the (Start (subRanges ! nat i))) 0 [] []"

subsection \<open>Waiting and merging (lines 106 to 122)\<close>

text \<open>
  \<^verbatim>\<open>g.Wait()\<close> returns the first non-nil error that a goroutine returned, in the order in
  which they returned, and \<^verbatim>\<open>nil\<close> when there is none.
\<close>

fun first_error :: "error option list \<Rightarrow> error option" where
  "first_error [] = None"
| "first_error (Some e # es) = Some e"
| "first_error (None # es) = first_error es"

text \<open>
  The second loop over \<open>i\<close> (lines 117 to 120); a key that is absent from a Go map reads as
  the nil slice. The first loop (lines 111 to 113) only computes the capacity of \<^verbatim>\<open>rows\<close>.
\<close>

function merge_loop :: "int \<Rightarrow> (int \<rightharpoonup> int list) \<Rightarrow> int \<Rightarrow> int list \<Rightarrow> int list" where
  "merge_loop nCores mapRows i rows =
     (if i < nCores then
        (let foundRows = (case mapRows i of None \<Rightarrow> [] | Some l \<Rightarrow> l)
         in merge_loop nCores mapRows (i + 1) (rows @ foundRows))
      else rows)"
  by pat_completeness auto
termination
  by (relation "measure (\<lambda>(nCores, mapRows, i, rows). nat (nCores - i))") auto

subsection \<open>Search\<close>

text \<open>
  \<open>Search\<close> is the function for a call of line 27 that returns, \<open>cmp_Equal env lower upper\<close>
  being the value returned; \<open>Search_call\<close> below is the whole call, with the panic of
  line 27.

  The goroutines share the context, which they only read, and \<^verbatim>\<open>mapRows\<close>, where each
  writes its own key once under \<^verbatim>\<open>mapProtect\<close>. What goroutine \<open>i\<close> computes is therefore a
  function of \<open>i\<close> and of the answers \<^verbatim>\<open>ctx.Err()\<close> gives it, and a run of \<^verbatim>\<open>Search\<close> is
  determined by the arguments together with the two choices of the scheduler: the
  \<open>nil_checks\<close> of the context and the order \<open>finish\<close>, in which the commits to
  \<^verbatim>\<open>mapRows\<close> are applied and in which \<^verbatim>\<open>g.Wait()\<close> sees the goroutines return (the commit
  and the return of one goroutine are taken as one event; by lemma \<open>Search_Inr\<close> the
  outcome does not depend on this order). \<^verbatim>\<open>g.Wait()\<close> returns once every goroutine has
  returned; the loops of the goroutines are total functions, so they all return.
\<close>

definition Search ::
  "'v Env \<Rightarrow> Context \<Rightarrow> 'v Series \<Rightarrow> 'v \<Rightarrow> 'v \<Rightarrow> Range list \<Rightarrow> Outcome" where
  "Search env ctx s lower upper r =
     (let r = (if length r = 0 then r @ [\<lparr>Start = None, End = None\<rparr>] else r);
          equalCheck = cmp_Equal env lower upper
      in case Limits env (r ! 0) (NRows s) of
           Inl err \<Rightarrow> \<lparr>ret_rows = [], ret_err = Some err, built = [], fetched = []\<rparr>
         | Inr (start, end) \<Rightarrow>
             (let nCores = NumCPU env;
                  dv = (end - start + 1) sdiv nCores;
                  subRanges = partition_loop nCores dv end 0 [];
                  run = goroutine ctx s equalCheck lower upper subRanges;
                  mapRows = fold (\<lambda>i m. m(i \<mapsto> found (run i))) (finish env) Map.empty;
                  err = first_error (map (\<lambda>i. failure (run i)) (finish env));
                  rows = merge_loop nCores mapRows 0 []
              in \<lparr>ret_rows = rows, ret_err = err, built = subRanges,
                   fetched = map (\<lambda>i. visited (run i)) [0..nCores - 1]\<rparr>))"

text \<open>
  The call as its caller sees it. Line 27 is executed before anything is returned: when
  \<^verbatim>\<open>cmp.Equal\<close> panics, the deferred \<^verbatim>\<open>s.Unlock()\<close> runs and the panic leaves \<^verbatim>\<open>Search\<close>,
  which returns nothing (\<open>None\<close>); otherwise the call returns what \<open>Search\<close> computes.
\<close>

definition Search_call ::
  "'v Env \<Rightarrow> Context \<Rightarrow> 'v Series \<Rightarrow> 'v \<Rightarrow> 'v \<Rightarrow> Range list \<Rightarrow> Outcome option" where
  "Search_call env ctx s lower upper r =
     (if cmp_Panics env lower upper then None
      else Some (Search env ctx s lower upper r))"

subsection \<open>The resolver and a sequential scan, from the specification\<close>

text \<open>
  Modelled from the spec: the method \<^verbatim>\<open>(*Range).Limits\<close> is called by \<^verbatim>\<open>Search\<close> and is not
  part of \<^verbatim>\<open>search.go\<close>. The specification describes it as the bounds resolver: either
  bound may be omitted and defaults to the full extent of the column, and the request fails
  with \<open>InvalidRangeError\<close> when it is malformed (\<open>start > end\<close>) or outside
  \<open>[0, rowCount)\<close>. The theorems below take the resolver of the environment as it
  comes; this one instantiates it in the examples.
\<close>

definition Range_Limits :: "Range \<Rightarrow> int \<Rightarrow> error + int \<times> int" where
  "Range_Limits r rowCount =
     (let start = (case Start r of None \<Rightarrow> 0 | Some a \<Rightarrow> a);
          end = (case End r of None \<Rightarrow> rowCount - 1 | Some b \<Rightarrow> b)
      in if end < start \<or> start < 0 \<or> rowCount \<le> end then Inl InvalidRangeError
         else Inr (start, end))"

text \<open>
  The strictly sequential single-pass scan of the specification over a resolved range, in
  range mode: a row matches iff \<open>NOT (value < lower) AND (value < upper OR value == upper)\<close>.
\<close>

definition sequential_scan :: "'v Series \<Rightarrow> 'v \<Rightarrow> 'v \<Rightarrow> int \<Rightarrow> int \<Rightarrow> int list" where
  "sequential_scan s lower upper start end =
     filter (\<lambda>row. \<not> IsLessThanFunc s (Value s row) lower
                  \<and> (IsLessThanFunc s (Value s row) upper \<or> IsEqualFunc s (Value s row) upper))
       [start..end]"

subsection \<open>Notions used to state the properties\<close>

text \<open>The range that \<^verbatim>\<open>Search\<close> hands to \<open>Limits\<close>: \<^verbatim>\<open>r[0]\<close> after lines 22 to 24.\<close>

definition requested :: "Range list \<Rightarrow> Range" where
  "requested r = (case r of [] \<Rightarrow> \<lparr>Start = None, End = None\<rparr> | r0 # _ \<Rightarrow> r0)"

text \<open>The sub-range that the loop of lines 43 to 60 appends at index \<open>i\<close>, and its rows.\<close>

definition sub_range :: "int \<Rightarrow> int \<Rightarrow> int \<Rightarrow> int \<Rightarrow> Range" where
  "sub_range nCores dv end i =
     (if i \<noteq> nCores - 1 then \<lparr>Start = Some (i * dv), End = Some ((i + 1) * dv - 1)\<rparr>
      else \<lparr>Start = Some (i * dv), End = Some end\<rparr>)"

definition part_rows :: "int \<Rightarrow> int \<Rightarrow> int \<Rightarrow> int \<Rightarrow> int list" where
  "part_rows nCores dv end i = [i * dv..(if i \<noteq> nCores - 1 then (i + 1) * dv - 1 else end)]"

text \<open>The test of lines 90 to 98 on one row.\<close>

definition row_matches :: "'v Series \<Rightarrow> bool \<Rightarrow> 'v \<Rightarrow> 'v \<Rightarrow> int \<Rightarrow> bool" where
  "row_matches s equalCheck lower upper row =
     (if equalCheck then IsEqualFunc s (Value s row) lower
      else \<not> IsLessThanFunc s (Value s row) lower
           \<and> (IsLessThanFunc s (Value s row) upper \<or> IsEqualFunc s (Value s row) upper))"

text \<open>
  The rows of \<open>xs\<close> that goroutine \<open>i\<close> gets to when it has already called
  \<^verbatim>\<open>ctx.Err()\<close> \<open>k\<close> times: all of them, or those before the call that returns the error.
\<close>

definition reached :: "Context \<Rightarrow> int \<Rightarrow> nat \<Rightarrow> int list \<Rightarrow> int list" where
  "reached ctx i k xs = (case nil_checks ctx i of None \<Rightarrow> xs | Some n \<Rightarrow> take (n - k) xs)"

subsection \<open>Example inputs\<close>

text \<open>
  A series of integers held in a list, compared by \<open>=\<close> and \<open><\<close>; an environment with
  \<open>n\<close> processors, the resolver above, and a given order of completion; a context that is
  never cancelled. \<^verbatim>\<open>cmp.Equal\<close> does not panic on two integers and returns whether they are
  the same. The examples fetch rows of the list only (lemma \<open>fetched_within\<close>).
\<close>

definition int_series :: "int list \<Rightarrow> int Series" where
  "int_series xs = \<lparr>NRows = int (length xs), Value = (\<lambda>row. xs ! nat row),
      IsEqualFunc = (=), IsLessThanFunc = (<)\<rparr>"

definition machine :: "int \<Rightarrow> int list \<Rightarrow> int Env" where
  "machine n order = \<lparr>NumCPU = n, cmp_Panics = (\<lambda>x y. False), cmp_Equal = (=),
      Limits = Range_Limits, finish = order\<rparr>"

definition never_cancelled :: Context where
  "never_cancelled = \<lparr>reason = Canceled, nil_checks = (\<lambda>i. None)\<rparr>"

text \<open>
  Bounds of a struct type: a value is a plain integer or a value \<^verbatim>\<open>T{A: a, b: b}\<close> of
  \<^verbatim>\<open>type T struct{A int; b int}\<close>, whose field \<^verbatim>\<open>b\<close> is unexported.
\<close>

datatype bound = Plain int | Struct int int

text \<open>
  Deep equality that ignores private fields, in the words of the specification: two
  structs are equal when their exported fields are.
\<close>

fun deep_equal_exported :: "bound \<Rightarrow> bound \<Rightarrow> bool" where
  "deep_equal_exported (Plain x) (Plain y) = (x = y)"
| "deep_equal_exported (Struct a b) (Struct a' b') = (a = a')"
| "deep_equal_exported _ _ = False"

text \<open>
  \<^verbatim>\<open>cmp.Equal(x, y, cmpopts.IgnoreUnexported())\<close> on these values, after the documentation of
  \<^verbatim>\<open>go-cmp\<close>: values of different types are unequal; two integers are compared by
  \<^verbatim>\<open>==\<close>; two structs are compared field by field, and the unexported field \<^verbatim>\<open>b\<close>, which
  the option without a type does not ignore, makes the call panic.
\<close>

fun go_cmp_Panics :: "bound \<Rightarrow> bound \<Rightarrow> bool" where
  "go_cmp_Panics (Struct a b) (Struct a' b') = True"
| "go_cmp_Panics _ _ = False"

definition struct_machine :: "int \<Rightarrow> int list \<Rightarrow> bound Env" where
  "struct_machine n order = \<lparr>NumCPU = n, cmp_Panics = go_cmp_Panics, cmp_Equal = (=),
      Limits = Range_Limits, finish = order\<rparr>"

text \<open>A series of such values, compared on the exported field.\<close>

fun exported :: "bound \<Rightarrow> int" where
  "exported (Plain x) = x"
| "exported (Struct a b) = a"

definition struct_series :: "bound list \<Rightarrow> bound Series" where
  "struct_series xs = \<lparr>NRows = int (length xs), Value = (\<lambda>row. xs ! nat row),
      IsEqualFunc = (\<lambda>x y. exported x = exported y),
      IsLessThanFunc = (\<lambda>x y. exported x < exported y)\<rparr>"

section \<open>The loops in closed form\<close>

declare partition_loop.simps [simp del] scan_loop.simps [simp del] merge_loop.simps [simp del]

lemma partition_loop_eq:
  "partition_loop n d e i acc = acc @ map (sub_range n d e) [i..n - 1]"
proof (induction n d e i acc rule: partition_loop.induct)
  case (1 n d e i acc)
  show ?case
  proof (cases "i < n")
    case True
    then have up: "[i..n - 1] = i # [i + 1..n - 1]" by (simp add: upto_rec1)
    show ?thesis
    proof (cases "i \<noteq> n - 1")
      case True
      from "1.IH"[OF \<open>i < n\<close> refl, of "i * d" "(i + 1) * d - 1"] True \<open>i < n\<close> up
      show ?thesis by (subst partition_loop.simps) (simp add: sub_range_def)
    next
      case False
      from "1.IH"[OF \<open>i < n\<close> refl, of "i * d" e] False \<open>i < n\<close> up
      show ?thesis by (subst partition_loop.simps) (simp add: sub_range_def)
    qed
  next
    case False
    then show ?thesis by (subst partition_loop.simps) simp
  qed
qed

lemma scan_loop_eq:
  "scan_loop ctx s eq lo up i e row k rf seen =
     \<lparr>found = rf @ filter (row_matches s eq lo up) (reached ctx i k [row..e]),
      failure = (if length (reached ctx i k [row..e]) < length [row..e] then Some (reason ctx) else None),
      visited = seen @ reached ctx i k [row..e]\<rparr>"
proof (induction ctx s eq lo up i e row k rf seen rule: scan_loop.induct)
  case (1 ctx s eq lo up i e row k rf seen)
  show ?case
  proof (cases "row < e + 1")
    case False
    then show ?thesis
      by (subst scan_loop.simps) (simp add: reached_def split: option.splits)
  next
    case True
    then have up: "[row..e] = row # [row + 1..e]" by (simp add: upto_rec1)
    show ?thesis
    proof (cases "ctx_Err ctx i k")
      case (Some err)
      then obtain n where "nil_checks ctx i = Some n" "\<not> k < n" "err = reason ctx"
        by (auto simp: ctx_Err_def split: option.splits if_splits)
      with True Some up show ?thesis
        by (subst scan_loop.simps) (simp add: reached_def)
    next
      case None
      then have r: "reached ctx i k (row # [row + 1..e]) = row # reached ctx i (Suc k) [row + 1..e]"
        by (auto simp: ctx_Err_def reached_def take_Cons' Suc_diff_Suc split: option.splits if_splits nat.splits)
      define rf' where "rf' = (if eq then (if IsEqualFunc s (Value s row) lo then rf @ [row] else rf)
                     else (if \<not> IsLessThanFunc s (Value s row) lo
                           \<and> (IsLessThanFunc s (Value s row) up \<or> IsEqualFunc s (Value s row) up)
                        then rf @ [row] else rf))"
      have rf': "rf' = rf @ filter (row_matches s eq lo up) [row]"
        by (simp add: rf'_def row_matches_def)
      have "scan_loop ctx s eq lo up i e row k rf seen
              = scan_loop ctx s eq lo up i e (row + 1) (Suc k) rf' (seen @ [row])"
        using True None by (subst scan_loop.simps) (simp add: Let_def rf'_def)
      also have "\<dots> = \<lparr>found = rf' @ filter (row_matches s eq lo up) (reached ctx i (Suc k) [row + 1..e]),
          failure = (if length (reached ctx i (Suc k) [row + 1..e]) < length [row + 1..e]
                     then Some (reason ctx) else None),
          visited = (seen @ [row]) @ reached ctx i (Suc k) [row + 1..e]\<rparr>"
        using "1.IH"[OF True None refl, of rf'] by (simp add: rf'_def)
      finally show ?thesis unfolding up r rf' by simp
    qed
  qed
qed

lemma merge_loop_eq:
  "merge_loop n m i rows =
     rows @ concat (map (\<lambda>j. case m j of None \<Rightarrow> [] | Some l \<Rightarrow> l) [i..n - 1])"
proof (induction n m i rows rule: merge_loop.induct)
  case (1 n m i rows)
  show ?case
  proof (cases "i < n")
    case True
    then have "[i..n - 1] = i # [i + 1..n - 1]" by (simp add: upto_rec1)
    with True "1" show ?thesis
      by (subst merge_loop.simps) simp
  next
    case False
    then show ?thesis by (subst merge_loop.simps) simp
  qed
qed

lemma fold_commit:
  "fold (\<lambda>i m. m(i \<mapsto> f i)) order m0 j = (if j \<in> set order then Some (f j) else m0 j)"
  by (induction order arbitrary: m0) auto

lemma first_error_const:
  assumes "\<forall>x \<in> set es. x = None \<or> x = Some e"
  shows "first_error es = (if \<exists>x \<in> set es. x \<noteq> None then Some e else None)"
  using assms by (induction es rule: first_error.induct) auto

lemma sdiv_nonneg: "0 \<le> a \<Longrightarrow> 0 < n \<Longrightarrow> (a::int) sdiv n = a div n"
  by (simp add: signed_divide_int_def sgn_if)

lemma upto_append: "i \<le> j \<Longrightarrow> j \<le> k + 1 \<Longrightarrow> [i..k] = [i..j - 1] @ [j..k]"
proof (cases "j \<le> k")
  case True
  assume "i \<le> j"
  with True show ?thesis by (simp add: upto_split1)
next
  case False
  assume "j \<le> k + 1"
  with False have "j - 1 = k" by simp
  with False show ?thesis by simp
qed

lemma chunks_cover:
  "0 \<le> d \<Longrightarrow> concat (map (\<lambda>i. [i * d..(i + 1) * d - 1]) [0..int m - 1]) = [0..int m * d - 1]"
proof (induction m)
  case 0
  then show ?case by simp
next
  case (Suc m)
  have "[0..int (Suc m) - 1] = [0..int m - 1] @ [int m]"
    using upto_rec2[of 0 "int m"] by simp
  moreover have "[0..int (Suc m) * d - 1] = [0..int m * d - 1] @ [int m * d..(int m + 1) * d - 1]"
    using Suc.prems upto_append[of 0 "int m * d" "int (Suc m) * d - 1"]
    by (simp add: algebra_simps)
  ultimately show ?case using Suc by simp
qed

lemma nth_map_upto:
  "0 \<le> i \<Longrightarrow> i < n \<Longrightarrow> map f [0..n - 1] ! nat i = f i"
  by (simp add: nth_upto)

lemma goroutine_eq:
  assumes "0 \<le> i" "i < n"
  shows "goroutine ctx s eq lo up (partition_loop n d e 0 []) i =
     \<lparr>found = filter (row_matches s eq lo up) (reached ctx i 0 (part_rows n d e i)),
      failure = (if length (reached ctx i 0 (part_rows n d e i)) < length (part_rows n d e i)
                 then Some (reason ctx) else None),
      visited = reached ctx i 0 (part_rows n d e i)\<rparr>"
  using assms
  by (simp add: goroutine_def partition_loop_eq nth_map_upto scan_loop_eq sub_range_def part_rows_def)

lemma requested_nth:
  "(if length r = 0 then r @ [\<lparr>Start = None, End = None\<rparr>] else r) ! 0 = requested r"
  by (cases r) (simp_all add: requested_def)

lemma Search_Inl:
  assumes "Limits env (requested r) (NRows s) = Inl e"
  shows "Search env ctx s lower upper r = \<lparr>ret_rows = [], ret_err = Some e, built = [], fetched = []\<rparr>"
  unfolding Search_def Let_def requested_nth assms by simp

lemma Search_Inr:
  fixes env :: "'v Env" and lower upper :: 'v
  assumes lim: "Limits env (requested r) (NRows s) = Inr (start, end)"
    and fin: "set (finish env) = {0..<NumCPU env}"
  defines "n \<equiv> NumCPU env"
    and "d \<equiv> (end - start + 1) sdiv NumCPU env"
    and "eq \<equiv> cmp_Equal env lower upper"
  shows "Search env ctx s lower upper r =
     \<lparr>ret_rows = concat (map (\<lambda>i. filter (row_matches s eq lower upper)
                                   (reached ctx i 0 (part_rows n d end i))) [0..n - 1]),
      ret_err = (if \<exists>i \<in> {0..<n}. length (reached ctx i 0 (part_rows n d end i))
                                     < length (part_rows n d end i)
                 then Some (reason ctx) else None),
      built = map (sub_range n d end) [0..n - 1],
      fetched = map (\<lambda>i. reached ctx i 0 (part_rows n d end i)) [0..n - 1]\<rparr>"
proof -
  let ?subs = "partition_loop n d end 0 []"
  let ?run = "goroutine ctx s eq lower upper ?subs"
  let ?mapRows = "fold (\<lambda>i m. m(i \<mapsto> found (?run i))) (finish env) Map.empty"
  have r0: "(if length r = 0 then r @ [\<lparr>Start = None, End = None\<rparr>] else r) ! 0 = requested r"
    by (cases r) (simp_all add: requested_def)
  have rows: "merge_loop n ?mapRows 0 [] =
      concat (map (\<lambda>i. filter (row_matches s eq lower upper)
                                   (reached ctx i 0 (part_rows n d end i))) [0..n - 1])"
  proof -
    have "map (\<lambda>j. case ?mapRows j of None \<Rightarrow> [] | Some l \<Rightarrow> l) [0..n - 1] =
          map (\<lambda>i. filter (row_matches s eq lower upper)
                                   (reached ctx i 0 (part_rows n d end i))) [0..n - 1]"
      by (rule map_cong[OF refl]) (simp add: fold_commit fin n_def[symmetric] goroutine_eq)
    then show ?thesis unfolding merge_loop_eq append_Nil by (rule arg_cong)
  qed
  have err: "first_error (map (\<lambda>i. failure (?run i)) (finish env)) =
      (if \<exists>i \<in> {0..<n}. length (reached ctx i 0 (part_rows n d end i))
                                     < length (part_rows n d end i)
                 then Some (reason ctx) else None)"
    by (subst first_error_const[where e = "reason ctx"])
       (auto simp: fin n_def[symmetric] goroutine_eq)
  have vis: "map (\<lambda>i. visited (?run i)) [0..n - 1] =
       map (\<lambda>i. reached ctx i 0 (part_rows n d end i)) [0..n - 1]"
    by (rule map_cong[OF refl]) (simp add: goroutine_eq)
  show ?thesis
    unfolding Search_def Let_def r0 lim sum.case prod.case
    unfolding d_def[symmetric] eq_def[symmetric]
    unfolding n_def[symmetric]
    unfolding rows err vis
    by (simp add: partition_loop_eq)
qed

lemma dv_bounds:
  fixes start "end" n :: int
  assumes s0: "0 \<le> start" and se: "start \<le> end" and n1: "1 \<le> n"
  shows "0 \<le> (end - start + 1) sdiv n" and "(n - 1) * ((end - start + 1) sdiv n) \<le> end"
proof -
  let ?a = "end - start + 1"
  define d where "d = ?a div n"
  have d: "?a sdiv n = d" using se n1 by (simp add: d_def sdiv_nonneg)
  have d0: "0 \<le> d" using se n1 unfolding d_def by (simp add: pos_imp_zdiv_nonneg_iff)
  have "n * d + ?a mod n = ?a" unfolding d_def by simp
  moreover have "0 \<le> ?a mod n" using n1 by simp
  ultimately have nd: "n * d \<le> ?a" by linarith
  have eq: "(n - 1) * d = n * d - d" by (simp add: algebra_simps)
  have "d = 0 \<or> 1 \<le> d" using d0 by linarith
  then have "(n - 1) * d \<le> end"
  proof
    assume "d = 0" then show ?thesis using s0 se by simp
  next
    assume "1 \<le> d" then show ?thesis using eq nd s0 by linarith
  qed
  then show "(n - 1) * (?a sdiv n) \<le> end" by (simp only: d)
  show "0 \<le> ?a sdiv n" using d0 by (simp only: d)
qed

lemma parts_cover:
  assumes "1 \<le> n" "0 \<le> d" "(n - 1) * d \<le> e + 1"
  shows "concat (map (part_rows n d e) [0..n - 1]) = [0..e]"
proof -
  have split: "[0..n - 1] = [0..n - 2] @ [n - 1]"
    using assms(1) upto_rec2[of 0 "n - 1"] by simp
  have "map (part_rows n d e) [0..n - 2] = map (\<lambda>i. [i * d..(i + 1) * d - 1]) [0..n - 2]"
    by (rule map_cong[OF refl]) (simp add: part_rows_def)
  then have "concat (map (part_rows n d e) [0..n - 2]) =
             concat (map (\<lambda>i. [i * d..(i + 1) * d - 1]) [0..n - 2])"
    by (rule arg_cong)
  also have "\<dots> = [0..(n - 1) * d - 1]"
    using chunks_cover[OF assms(2), of "nat (n - 1)"] assms(1) by simp
  finally have front: "concat (map (part_rows n d e) [0..n - 2]) = [0..(n - 1) * d - 1]" .
  have last: "part_rows n d e (n - 1) = [(n - 1) * d..e]"
    by (simp add: part_rows_def)
  have "[0..e] = [0..(n - 1) * d - 1] @ [(n - 1) * d..e]"
    using assms by (intro upto_append) simp_all
  then show ?thesis
    unfolding split by (simp add: front last)
qed

lemma reached_None: "nil_checks ctx i = None \<Longrightarrow> reached ctx i k xs = xs"
  by (simp add: reached_def)

lemma subseq_concat_map:
  "(\<And>x. x \<in> set xs \<Longrightarrow> subseq (f x) (g x)) \<Longrightarrow> subseq (concat (map f xs)) (concat (map g xs))"
  by (induction xs) (auto intro: list_emb_append_mono)

lemma subseq_sorted_wrt:
  "subseq xs ys \<Longrightarrow> sorted_wrt R ys \<Longrightarrow> sorted_wrt R xs"
proof (induction rule: list_emb.induct)
  case (list_emb_Cons2 x y xs ys)
  then have "set xs \<subseteq> set ys" by (auto dest: list_emb_set)
  with list_emb_Cons2 show ?case by auto
next
  case (list_emb_Cons xs ys y)
  then show ?case by simp
qed simp

lemma subseq_distinct: "subseq xs ys \<Longrightarrow> distinct ys \<Longrightarrow> distinct xs"
proof (induction rule: list_emb.induct)
  case (list_emb_Cons2 x y xs ys)
  then have "set xs \<subseteq> set ys" by (auto dest: list_emb_set)
  with list_emb_Cons2 show ?case by auto
next
  case (list_emb_Cons xs ys y)
  then show ?case by simp
qed simp

lemma rows_filter_fetched:
  assumes "set (finish env) = {0..<NumCPU env}"
  shows "ret_rows (Search env ctx s lower upper r) =
         filter (row_matches s (cmp_Equal env lower upper) lower upper)
           (concat (fetched (Search env ctx s lower upper r)))"
proof (cases "Limits env (requested r) (NRows s)")
  case (Inl e)
  have r0: "(if length r = 0 then r @ [\<lparr>Start = None, End = None\<rparr>] else r) ! 0 = requested r"
    by (cases r) (simp_all add: requested_def)
  show ?thesis unfolding Search_def Let_def r0 Inl by simp
next
  case (Inr p)
  obtain start "end" where "p = (start, end)" by (cases p)
  with Inr show ?thesis
    by (simp add: Search_Inr[OF _ assms] filter_concat comp_def)
qed

lemma fetched_uncancelled:
  assumes lim: "Limits env (requested r) (NRows s) = Inr (start, end)"
    and fin: "set (finish env) = {0..<NumCPU env}"
    and n1: "1 \<le> NumCPU env" and s0: "0 \<le> start" and se: "start \<le> end"
    and live: "\<forall>i. nil_checks ctx i = None"
  shows "concat (fetched (Search env ctx s lower upper r)) = [0..end]"
proof -
  let ?n = "NumCPU env" and ?d = "(end - start + 1) sdiv NumCPU env"
  have "map (\<lambda>i. reached ctx i 0 (part_rows ?n ?d end i)) [0..?n - 1] = map (part_rows ?n ?d end) [0..?n - 1]"
    by (rule map_cong[OF refl]) (simp add: reached_None live)
  then have "concat (map (\<lambda>i. reached ctx i 0 (part_rows ?n ?d end i)) [0..?n - 1])
               = concat (map (part_rows ?n ?d end) [0..?n - 1])"
    by (rule arg_cong)
  then have "concat (fetched (Search env ctx s lower upper r)) = concat (map (part_rows ?n ?d end) [0..?n - 1])"
    unfolding Search_Inr[OF lim fin] by simp
  also have "\<dots> = [0..end]"
    using dv_bounds[OF s0 se n1] n1 by (intro parts_cover) simp_all
  finally show ?thesis .
qed

lemma rows_subseq_uncancelled:
  assumes fin: "set (finish env) = {0..<NumCPU env}"
  shows "subseq (ret_rows (Search env ctx s lower upper r))
                (ret_rows (Search env (ctx\<lparr>nil_checks := \<lambda>j. None\<rparr>) s lower upper r))"
proof (cases "Limits env (requested r) (NRows s)")
  case (Inl e)
  then show ?thesis by (simp add: Search_Inl)
next
  case (Inr p)
  obtain start "end" where p: "p = (start, end)" by (cases p)
  have lim: "Limits env (requested r) (NRows s) = Inr (start, end)" using Inr p by simp
  show ?thesis
    unfolding Search_Inr[OF lim fin]
    by (simp add: reached_def) (intro subseq_concat_map subseq_filter, auto split: option.splits intro: prefix_imp_subseq take_is_prefix)
qed

lemma rows_uncancelled:
  assumes lim: "Limits env (requested r) (NRows s) = Inr (start, end)"
    and fin: "set (finish env) = {0..<NumCPU env}"
    and n1: "1 \<le> NumCPU env" and s0: "0 \<le> start" and se: "start \<le> end"
    and live: "\<forall>i. nil_checks ctx i = None"
  shows "ret_rows (Search env ctx s lower upper r) =
         filter (row_matches s (cmp_Equal env lower upper) lower upper) [0..end]"
  by (simp only: rows_filter_fetched[OF fin] fetched_uncancelled[OF lim fin n1 s0 se live])

lemma err_uncancelled:
  assumes "set (finish env) = {0..<NumCPU env}" "\<forall>i. nil_checks ctx i = None"
    and "Limits env (requested r) (NRows s) = Inr (start, end)"
  shows "ret_err (Search env ctx s lower upper r) = None"
  using assms by (simp add: Search_Inr reached_None)


lemma fetched_cancelled:
  assumes lim: "Limits env (requested r) (NRows s) = Inr (start, end)"
    and fin: "set (finish env) = {0..<NumCPU env}"
  shows "fetched (Search env ctx s lower upper r) =
         map (\<lambda>j. case nil_checks ctx j of
                     None \<Rightarrow> fetched (Search env (ctx\<lparr>nil_checks := \<lambda>j. None\<rparr>) s lower upper r) ! nat j
                   | Some m \<Rightarrow> take m (fetched (Search env (ctx\<lparr>nil_checks := \<lambda>j. None\<rparr>) s lower upper r) ! nat j))
           [0..NumCPU env - 1]"
  unfolding Search_Inr[OF lim fin]
  by (auto simp: reached_def nth_upto split: option.splits)

text \<open>
  Every read of \<^verbatim>\<open>subRanges[i]\<close> in a goroutine is within the slice, and the two pointers
  it dereferences are non-nil.
\<close>

lemma partition_loop_length: "0 \<le> n \<Longrightarrow> length (partition_loop n d e 0 []) = nat n"
  by (simp add: partition_loop_eq)

lemma partition_loop_nth:
  assumes "0 \<le> i" "i < n"
  shows "\<exists>a b. partition_loop n d e 0 [] ! nat i = \<lparr>Start = Some a, End = Some b\<rparr>"
  using assms by (simp add: partition_loop_eq nth_map_upto sub_range_def)

text \<open>
  The rows passed to \<^verbatim>\<open>s.Value\<close> are rows \<open>0\<close> to \<open>end\<close>, in every run: a resolver that
  returns \<open>end < NRows\<close> keeps every fetch inside the series.
\<close>

lemma fetched_within:
  assumes lim: "Limits env (requested r) (NRows s) = Inr (start, end)"
    and fin: "set (finish env) = {0..<NumCPU env}"
    and n1: "1 \<le> NumCPU env" and s0: "0 \<le> start" and se: "start \<le> end"
  shows "subseq (concat (fetched (Search env ctx s lower upper r))) [0..end]"
proof -
  let ?n = "NumCPU env" and ?d = "(end - start + 1) sdiv NumCPU env"
  have "subseq (concat (map (\<lambda>i. reached ctx i 0 (part_rows ?n ?d end i)) [0..?n - 1]))
               (concat (map (part_rows ?n ?d end) [0..?n - 1]))"
    by (rule subseq_concat_map) (auto simp: reached_def split: option.splits
          intro: prefix_imp_subseq take_is_prefix)
  moreover have "concat (map (part_rows ?n ?d end) [0..?n - 1]) = [0..end]"
    using dv_bounds[OF s0 se n1] n1 by (intro parts_cover) simp_all
  ultimately show ?thesis
    unfolding Search_Inr[OF lim fin] by simp
qed

text \<open>
  Equality mode, for a comparison of line 27 that returns true: the rows returned are
  exactly the rows scanned whose value \<^verbatim>\<open>IsEqualFunc\<close> relates to \<open>lower\<close>, in every run.
\<close>

lemma equality_mode_rows:
  assumes fin: "set (finish env) = {0..<NumCPU env}"
    and eq: "cmp_Equal env lower upper"
  shows "ret_rows (Search env ctx s lower upper r) =
         filter (\<lambda>row. IsEqualFunc s (Value s row) lower)
           (concat (fetched (Search env ctx s lower upper r)))"
proof -
  have "row_matches s True lower upper = (\<lambda>row. IsEqualFunc s (Value s row) lower)"
    by (rule ext) (simp add: row_matches_def)
  with rows_filter_fetched[OF fin, of ctx s lower upper r] eq show ?thesis by simp
qed

section \<open>The claims\<close>

text \<open>
  Claim C7. When the resolver reports an error for the requested range, \<^verbatim>\<open>Search\<close> returns no
  rows together with that error; it builds no sub-range and fetches no value of the series.
\<close>

theorem C7_resolver_error:
  assumes "Limits env (requested r) (NRows s) = Inl e"
  shows "Search env ctx s lower upper r =
           \<lparr>ret_rows = [], ret_err = Some e, built = [], fetched = []\<rparr>"
  using assms by (rule Search_Inl)

theorem C7_resolver_error_witness:
  "Limits (machine 4 [2, 0, 3, 1]) (requested [\<lparr>Start = Some 10, End = Some 2\<rparr>])
       (NRows (int_series [5, 3, 9, 3, 7])) = Inl InvalidRangeError
   \<and> Search (machine 4 [2, 0, 3, 1]) never_cancelled (int_series [5, 3, 9, 3, 7]) 3 7
         [\<lparr>Start = Some 10, End = Some 2\<rparr>]
       = \<lparr>ret_rows = [], ret_err = Some InvalidRangeError, built = [], fetched = []\<rparr>"
proof -
  have h: "Limits (machine 4 [2, 0, 3, 1]) (requested [\<lparr>Start = Some 10, End = Some 2\<rparr>])
       (NRows (int_series [5, 3, 9, 3, 7])) = Inl InvalidRangeError"
    by code_simp
  show ?thesis using h C7_resolver_error[OF h] by simp
qed

text \<open>
  Claim C3. Whatever the context does and in whatever order the goroutines complete, the
  returned rows are strictly ascending, hence without duplicates: the merge reads
  \<^verbatim>\<open>mapRows\<close> by index and neither sorts nor removes anything. The resolver is assumed to
  return \<open>0 \<le> start \<le> end\<close> whenever it succeeds.
\<close>

theorem C3_rows_ascending:
  assumes fin: "set (finish env) = {0..<NumCPU env}"
    and n1: "1 \<le> NumCPU env"
    and valid: "\<forall>start end. Limits env (requested r) (NRows s) = Inr (start, end)
                   \<longrightarrow> 0 \<le> start \<and> start \<le> end"
  shows "sorted_wrt (<) (ret_rows (Search env ctx s lower upper r))
         \<and> distinct (ret_rows (Search env ctx s lower upper r))"
proof (cases "Limits env (requested r) (NRows s)")
  case (Inl e)
  then show ?thesis by (simp add: Search_Inl)
next
  case (Inr p)
  obtain start "end" where p: "p = (start, end)" by (cases p)
  have lim: "Limits env (requested r) (NRows s) = Inr (start, end)" using Inr p by simp
  with valid have s0: "0 \<le> start" and se: "start \<le> end" by auto
  let ?full = "ret_rows (Search env (ctx\<lparr>nil_checks := \<lambda>j. None\<rparr>) s lower upper r)"
  have "?full = filter (row_matches s (cmp_Equal env lower upper) lower upper) [0..end]"
    by (rule rows_uncancelled[OF lim fin n1 s0 se]) simp
  then have "sorted_wrt (<) ?full" "distinct ?full"
    by (simp_all add: sorted_wrt_filter)
  with rows_subseq_uncancelled[OF fin, of ctx s lower upper r] show ?thesis
    by (blast intro: subseq_sorted_wrt subseq_distinct)
qed

theorem C3_rows_ascending_witness:
  "set (finish (machine 2 [1, 0])) = {0..<NumCPU (machine 2 [1, 0])}
   \<and> 1 \<le> NumCPU (machine 2 [1, 0])
   \<and> Limits (machine 2 [1, 0]) (requested []) (NRows (int_series [5, 3, 9, 3, 7])) = Inr (0, 4)
   \<and> sorted_wrt (<) (ret_rows (Search (machine 2 [1, 0]) never_cancelled (int_series [5, 3, 9, 3, 7]) 3 7 []))
   \<and> distinct (ret_rows (Search (machine 2 [1, 0]) never_cancelled (int_series [5, 3, 9, 3, 7]) 3 7 []))"
proof -
  have h1: "set (finish (machine 2 [1, 0])) = {0..<NumCPU (machine 2 [1, 0])}" by code_simp
  have h2: "1 \<le> NumCPU (machine 2 [1, 0])" by code_simp
  have h3: "\<forall>start end. Limits (machine 2 [1, 0]) (requested []) (NRows (int_series [5, 3, 9, 3, 7])) = Inr (start, end)
                   \<longrightarrow> 0 \<le> start \<and> start \<le> end"
    by (simp add: machine_def requested_def int_series_def Range_Limits_def)
  have h4: "Limits (machine 2 [1, 0]) (requested []) (NRows (int_series [5, 3, 9, 3, 7])) = Inr (0, 4)"
    by code_simp
  show ?thesis using h1 h2 h4 C3_rows_ascending[OF h1 h2 h3] by simp
qed

text \<open>
  Claim C4, at bounds of a struct type with an unexported field. \<^verbatim>\<open>T{A: 3, b: 1}\<close> and
  \<^verbatim>\<open>T{A: 3, b: 2}\<close> are deep-equal when private fields are ignored, and so is
  \<^verbatim>\<open>T{A: 3, b: 1}\<close> with itself; on both pairs the comparison of line 27 panics, because
  \<^verbatim>\<open>cmpopts.IgnoreUnexported()\<close> is called without the struct type, and the call returns
  nothing instead of the rows equal to the target. On the plain bounds \<open>3\<close> and \<open>3\<close> the
  call returns the rows \<open>1\<close> and \<open>3\<close>; lemma \<open>equality_mode_rows\<close> is the general
  statement for a comparison that returns true.
\<close>

theorem C4_struct_bounds_panic:
  "deep_equal_exported (Struct 3 1) (Struct 3 2)
   \<and> Search_call (struct_machine 2 [0, 1]) never_cancelled
         (struct_series [Struct 5 0, Struct 3 1, Struct 9 0, Struct 3 2, Struct 7 0])
         (Struct 3 1) (Struct 3 2) [] = None
   \<and> deep_equal_exported (Struct 3 1) (Struct 3 1)
   \<and> Search_call (struct_machine 2 [0, 1]) never_cancelled
         (struct_series [Struct 5 0, Struct 3 1, Struct 9 0, Struct 3 2, Struct 7 0])
         (Struct 3 1) (Struct 3 1) [] = None
   \<and> map_option ret_rows
         (Search_call (struct_machine 2 [0, 1]) never_cancelled
            (struct_series [Plain 5, Plain 3, Plain 9, Plain 3, Plain 7]) (Plain 3) (Plain 3) [])
       = Some [1, 3]"
  by code_simp

text \<open>
  Claim C5. When \<^verbatim>\<open>cmp.Equal\<close> does not hold of \<open>lower\<close> and \<open>upper\<close>, a scanned row is
  returned iff its value is not less than \<open>lower\<close> and is less than or equal to \<open>upper\<close>,
  by \<^verbatim>\<open>IsLessThanFunc\<close> and \<^verbatim>\<open>IsEqualFunc\<close> only: both ends are inclusive.
\<close>

theorem C5_range_mode:
  assumes fin: "set (finish env) = {0..<NumCPU env}"
    and neq: "\<not> cmp_Equal env lower upper"
    and row: "row \<in> set (concat (fetched (Search env ctx s lower upper r)))"
  shows "row \<in> set (ret_rows (Search env ctx s lower upper r)) \<longleftrightarrow>
         (\<not> IsLessThanFunc s (Value s row) lower
          \<and> (IsLessThanFunc s (Value s row) upper \<or> IsEqualFunc s (Value s row) upper))"
proof -
  have "row \<in> set (ret_rows (Search env ctx s lower upper r)) \<longleftrightarrow>
        row_matches s (cmp_Equal env lower upper) lower upper row"
    using row by (subst rows_filter_fetched[OF fin]) simp
  then show ?thesis using neq by (simp add: row_matches_def)
qed

theorem C5_range_mode_witness:
  "set (finish (machine 2 [0, 1])) = {0..<NumCPU (machine 2 [0, 1])}
   \<and> \<not> cmp_Equal (machine 2 [0, 1]) 3 7
   \<and> 4 \<in> set (concat (fetched (Search (machine 2 [0, 1]) never_cancelled (int_series [5, 3, 9, 3, 7]) 3 7 [])))
   \<and> (4 \<in> set (ret_rows (Search (machine 2 [0, 1]) never_cancelled (int_series [5, 3, 9, 3, 7]) 3 7 [])) \<longleftrightarrow>
         (\<not> IsLessThanFunc (int_series [5, 3, 9, 3, 7]) (Value (int_series [5, 3, 9, 3, 7]) 4) 3
          \<and> (IsLessThanFunc (int_series [5, 3, 9, 3, 7]) (Value (int_series [5, 3, 9, 3, 7]) 4) 7
               \<or> IsEqualFunc (int_series [5, 3, 9, 3, 7]) (Value (int_series [5, 3, 9, 3, 7]) 4) 7)))
   \<and> ret_rows (Search (machine 2 [0, 1]) never_cancelled (int_series [5, 3, 9, 3, 7]) 3 7 []) = [0, 1, 3, 4]"
proof -
  have h1: "set (finish (machine 2 [0, 1])) = {0..<NumCPU (machine 2 [0, 1])}" by code_simp
  have h2: "\<not> cmp_Equal (machine 2 [0, 1]) 3 7" by code_simp
  have h3: "4 \<in> set (concat (fetched (Search (machine 2 [0, 1]) never_cancelled (int_series [5, 3, 9, 3, 7]) 3 7 [])))"
    by code_simp
  have v: "ret_rows (Search (machine 2 [0, 1]) never_cancelled (int_series [5, 3, 9, 3, 7]) 3 7 []) = [0, 1, 3, 4]"
    by code_simp
  show ?thesis using h1 h2 h3 v C5_range_mode[OF h1 h2 h3] by simp
qed

text \<open>
  Claim C9. Two runs that are not cancelled, on the same arguments and with the same number
  of processors, return the same rows in the same order and the same error value, however
  the scheduler orders the goroutines in either run.
\<close>

theorem C9_deterministic:
  assumes fin1: "set order1 = {0..<NumCPU env}"
    and fin2: "set order2 = {0..<NumCPU env}"
    and live1: "\<forall>i. nil_checks ctx1 i = None"
    and live2: "\<forall>i. nil_checks ctx2 i = None"
  shows "ret_rows (Search (env\<lparr>finish := order1\<rparr>) ctx1 s lower upper r) =
           ret_rows (Search (env\<lparr>finish := order2\<rparr>) ctx2 s lower upper r)
         \<and> ret_err (Search (env\<lparr>finish := order1\<rparr>) ctx1 s lower upper r) =
           ret_err (Search (env\<lparr>finish := order2\<rparr>) ctx2 s lower upper r)"
proof (cases "Limits env (requested r) (NRows s)")
  case (Inl e)
  then show ?thesis by (simp add: Search_Inl)
next
  case (Inr p)
  obtain start "end" where p: "p = (start, end)" by (cases p)
  have f1: "set (finish (env\<lparr>finish := order1\<rparr>)) = {0..<NumCPU (env\<lparr>finish := order1\<rparr>)}"
    and f2: "set (finish (env\<lparr>finish := order2\<rparr>)) = {0..<NumCPU (env\<lparr>finish := order2\<rparr>)}"
    using fin1 fin2 by simp_all
  have l1: "Limits (env\<lparr>finish := order1\<rparr>) (requested r) (NRows s) = Inr (start, end)"
    and l2: "Limits (env\<lparr>finish := order2\<rparr>) (requested r) (NRows s) = Inr (start, end)"
    using Inr p by simp_all
  show ?thesis
    unfolding Search_Inr[OF l1 f1] Search_Inr[OF l2 f2]
    using live1 live2 by (simp add: reached_None)
qed

theorem C9_deterministic_witness:
  "set [1, 0] = {0..<NumCPU (machine 2 [])}
   \<and> set [0, 1] = {0..<NumCPU (machine 2 [])}
   \<and> ret_rows (Search ((machine 2 [])\<lparr>finish := [1, 0]\<rparr>) never_cancelled (int_series [5, 3, 9, 3, 7]) 3 7 []) =
       ret_rows (Search ((machine 2 [])\<lparr>finish := [0, 1]\<rparr>)
                   \<lparr>reason = DeadlineExceeded, nil_checks = (\<lambda>i. None)\<rparr> (int_series [5, 3, 9, 3, 7]) 3 7 [])
   \<and> ret_err (Search ((machine 2 [])\<lparr>finish := [1, 0]\<rparr>) never_cancelled (int_series [5, 3, 9, 3, 7]) 3 7 []) =
       ret_err (Search ((machine 2 [])\<lparr>finish := [0, 1]\<rparr>)
                   \<lparr>reason = DeadlineExceeded, nil_checks = (\<lambda>i. None)\<rparr> (int_series [5, 3, 9, 3, 7]) 3 7 [])"
proof -
  have h1: "set [1, 0] = {0..<NumCPU (machine 2 [])}" by code_simp
  have h2: "set [0, 1] = {0..<NumCPU (machine 2 [])}" by code_simp
  have h3: "\<forall>i. nil_checks never_cancelled i = None" by (simp add: never_cancelled_def)
  have h4: "\<forall>i. nil_checks \<lparr>reason = DeadlineExceeded, nil_checks = (\<lambda>i. None)\<rparr> i = None" by simp
  show ?thesis using h1 h2 C9_deterministic[OF h1 h2 h3 h4, of "int_series [5, 3, 9, 3, 7]" 3 7 "[]"]
    by simp
qed



text \<open>
  Claim C6, as amended. Suppose the resolver succeeds and some goroutine \<open>i\<close> gets the error
  of the context at a check while it still has rows to scan: after \<open>k\<close> checks that returned
  \<^verbatim>\<open>nil\<close>, where its sub-range has more than \<open>k\<close> rows. Then \<^verbatim>\<open>Search\<close> returns the error
  of the context; every goroutine has scanned the rows of its sub-range up to its own
  failing check and no further; the rows returned are the matching rows among those
  scanned, so what a goroutine found before it stopped is kept; and the rows returned
  are a subsequence of the rows of the run that is not cancelled. A cancellation that no
  goroutine meets at a check is not covered: see the counterexample below.
\<close>

theorem C6_cancelled_mid_scan:
  assumes lim: "Limits env (requested r) (NRows s) = Inr (start, end)"
    and fin: "set (finish env) = {0..<NumCPU env}"
    and i: "0 \<le> i" "i < NumCPU env"
    and seen: "nil_checks ctx i = Some k"
    and more: "k < length (fetched (Search env (ctx\<lparr>nil_checks := \<lambda>j. None\<rparr>) s lower upper r) ! nat i)"
  shows "ret_err (Search env ctx s lower upper r) = Some (reason ctx)
       \<and> fetched (Search env ctx s lower upper r) =
           map (\<lambda>j. case nil_checks ctx j of
                     None \<Rightarrow> fetched (Search env (ctx\<lparr>nil_checks := \<lambda>j. None\<rparr>) s lower upper r) ! nat j
                   | Some m \<Rightarrow> take m (fetched (Search env (ctx\<lparr>nil_checks := \<lambda>j. None\<rparr>) s lower upper r) ! nat j))
             [0..NumCPU env - 1]
       \<and> ret_rows (Search env ctx s lower upper r) =
           filter (row_matches s (cmp_Equal env lower upper) lower upper)
             (concat (fetched (Search env ctx s lower upper r)))
       \<and> subseq (ret_rows (Search env ctx s lower upper r))
                 (ret_rows (Search env (ctx\<lparr>nil_checks := \<lambda>j. None\<rparr>) s lower upper r))"
proof -
  let ?part = "part_rows (NumCPU env) ((end - start + 1) sdiv NumCPU env) end"
  have "fetched (Search env (ctx\<lparr>nil_checks := \<lambda>j. None\<rparr>) s lower upper r) ! nat i = ?part i"
    unfolding Search_Inr[OF lim fin] using i by (simp add: reached_def nth_upto)
  with more have "k < length (?part i)" by simp
  then have "length (reached ctx i 0 (?part i)) < length (?part i)"
    using seen by (simp add: reached_def)
  with i have "\<exists>i\<in>{0..<NumCPU env}. length (reached ctx i 0 (?part i)) < length (?part i)"
    by auto
  then have "ret_err (Search env ctx s lower upper r) = Some (reason ctx)"
    unfolding Search_Inr[OF lim fin] by simp
  then show ?thesis
    using fetched_cancelled[OF lim fin] rows_filter_fetched[OF fin] rows_subseq_uncancelled[OF fin]
    by blast
qed

theorem C6_cancelled_mid_scan_witness:
  "Limits (machine 2 [1, 0]) (requested []) (NRows (int_series [5, 3, 9, 3, 7])) = Inr (0, 4)
   \<and> set (finish (machine 2 [1, 0])) = {0..<NumCPU (machine 2 [1, 0])}
   \<and> nil_checks \<lparr>reason = Canceled, nil_checks = (\<lambda>i. if i = 1 then Some 2 else None)\<rparr> 1 = Some 2
   \<and> 2 < length (fetched (Search (machine 2 [1, 0]) never_cancelled (int_series [5, 3, 9, 3, 7]) 3 7 []) ! nat 1)
   \<and> ret_err (Search (machine 2 [1, 0])
                 \<lparr>reason = Canceled, nil_checks = (\<lambda>i. if i = 1 then Some 2 else None)\<rparr>
                 (int_series [5, 3, 9, 3, 7]) 3 7 []) = Some Canceled
   \<and> fetched (Search (machine 2 [1, 0])
                 \<lparr>reason = Canceled, nil_checks = (\<lambda>i. if i = 1 then Some 2 else None)\<rparr>
                 (int_series [5, 3, 9, 3, 7]) 3 7 []) = [[0, 1], [2, 3]]
   \<and> ret_rows (Search (machine 2 [1, 0])
                 \<lparr>reason = Canceled, nil_checks = (\<lambda>i. if i = 1 then Some 2 else None)\<rparr>
                 (int_series [5, 3, 9, 3, 7]) 3 7 []) = [0, 1, 3]
   \<and> subseq (ret_rows (Search (machine 2 [1, 0])
                 \<lparr>reason = Canceled, nil_checks = (\<lambda>i. if i = 1 then Some 2 else None)\<rparr>
                 (int_series [5, 3, 9, 3, 7]) 3 7 []))
             (ret_rows (Search (machine 2 [1, 0]) never_cancelled (int_series [5, 3, 9, 3, 7]) 3 7 []))"
proof -
  let ?ctx = "\<lparr>reason = Canceled, nil_checks = (\<lambda>i::int. if i = 1 then Some (2::nat) else None)\<rparr>"
  have live: "?ctx\<lparr>nil_checks := \<lambda>j. None\<rparr> = never_cancelled"
    by (simp add: never_cancelled_def)
  have h1: "Limits (machine 2 [1, 0]) (requested []) (NRows (int_series [5, 3, 9, 3, 7])) = Inr (0, 4)"
    by code_simp
  have h2: "set (finish (machine 2 [1, 0])) = {0..<NumCPU (machine 2 [1, 0])}" by code_simp
  have h3: "(0::int) \<le> 1" "1 < NumCPU (machine 2 [1, 0])" by code_simp+
  have h4: "nil_checks ?ctx 1 = Some 2" by simp
  have h5: "2 < length (fetched (Search (machine 2 [1, 0]) (?ctx\<lparr>nil_checks := \<lambda>j. None\<rparr>)
                 (int_series [5, 3, 9, 3, 7]) 3 7 []) ! nat 1)"
    unfolding live by code_simp
  have v1: "fetched (Search (machine 2 [1, 0]) ?ctx (int_series [5, 3, 9, 3, 7]) 3 7 []) = [[0, 1], [2, 3]]"
    by code_simp
  have v2: "ret_rows (Search (machine 2 [1, 0]) ?ctx (int_series [5, 3, 9, 3, 7]) 3 7 []) = [0, 1, 3]"
    by code_simp
  note c = C6_cancelled_mid_scan[OF h1 h2 h3 h4 h5, unfolded live]
  have e: "ret_err (Search (machine 2 [1, 0]) ?ctx (int_series [5, 3, 9, 3, 7]) 3 7 []) = Some Canceled"
    using c[THEN conjunct1] by simp
  have "subseq (ret_rows (Search (machine 2 [1, 0]) ?ctx (int_series [5, 3, 9, 3, 7]) 3 7 []))
             (ret_rows (Search (machine 2 [1, 0]) never_cancelled (int_series [5, 3, 9, 3, 7]) 3 7 []))"
    by (rule c[THEN conjunct2, THEN conjunct2, THEN conjunct2])
  with e h1 h2 h4 h5 v1 v2 show ?thesis unfolding live by simp
qed

text \<open>
  Claim C6 as it was stated fails: the signal can become active in the middle of the scan and
  \<^verbatim>\<open>Search\<close> still return no error. On the column \<open>[5, 3, 9, 3, 7]\<close> with two processors,
  goroutine \<open>1\<close> scans the rows \<open>2, 3, 4\<close>. When the context is cancelled after the third
  check of goroutine \<open>1\<close> has returned \<^verbatim>\<open>nil\<close>, that is while it fetches or compares its
  last row, no goroutine asks the context again: the error returned is \<^verbatim>\<open>nil\<close> and the
  rows are those of the run that is not cancelled. Cancellation is cooperative; it is seen
  at the per-row checks only.
\<close>

theorem C6_late_cancellation_counterexample:
  "nil_checks \<lparr>reason = Canceled, nil_checks = (\<lambda>i. if i = 1 then Some 3 else None)\<rparr> 1 = Some 3
   \<and> fetched (Search (machine 2 [0, 1]) never_cancelled (int_series [5, 3, 9, 3, 7]) 3 7 []) ! nat 1
       = [2, 3, 4]
   \<and> ret_err (Search (machine 2 [0, 1])
                 \<lparr>reason = Canceled, nil_checks = (\<lambda>i. if i = 1 then Some 3 else None)\<rparr>
                 (int_series [5, 3, 9, 3, 7]) 3 7 []) = None
   \<and> ret_rows (Search (machine 2 [0, 1])
                 \<lparr>reason = Canceled, nil_checks = (\<lambda>i. if i = 1 then Some 3 else None)\<rparr>
                 (int_series [5, 3, 9, 3, 7]) 3 7 []) = [0, 1, 3, 4]
   \<and> ret_rows (Search (machine 2 [0, 1]) never_cancelled (int_series [5, 3, 9, 3, 7]) 3 7 [])
       = [0, 1, 3, 4]"
  by code_simp

text \<open>
  Claim C8. Only the first range of the variadic parameter is read: ranges after the first
  change nothing, and a call without a range is the call with the range whose bounds are
  both absent. Where the resolver maps that range to the whole column,
  \<open>(0, NRows - 1)\<close>, a run that is not cancelled scans every row of the column.
\<close>

theorem C8_first_range_only:
  "Search env ctx s lower upper (r0 # rest) = Search env ctx s lower upper [r0]
   \<and> Search env ctx s lower upper [] = Search env ctx s lower upper [\<lparr>Start = None, End = None\<rparr>]
   \<and> (set (finish env) = {0..<NumCPU env} \<and> 1 \<le> NumCPU env \<and> 1 \<le> NRows s
        \<and> (\<forall>i. nil_checks ctx i = None)
        \<and> Limits env \<lparr>Start = None, End = None\<rparr> (NRows s) = Inr (0, NRows s - 1)
      \<longrightarrow> concat (fetched (Search env ctx s lower upper [])) = [0..NRows s - 1])"
proof (intro conjI impI)
  show "Search env ctx s lower upper (r0 # rest) = Search env ctx s lower upper [r0]"
    by (simp add: Search_def)
  show "Search env ctx s lower upper [] = Search env ctx s lower upper [\<lparr>Start = None, End = None\<rparr>]"
    by (simp add: Search_def)
  assume a: "set (finish env) = {0..<NumCPU env} \<and> 1 \<le> NumCPU env \<and> 1 \<le> NRows s
        \<and> (\<forall>i. nil_checks ctx i = None)
        \<and> Limits env \<lparr>Start = None, End = None\<rparr> (NRows s) = Inr (0, NRows s - 1)"
  then have lim: "Limits env (requested []) (NRows s) = Inr (0, NRows s - 1)"
    by (simp add: requested_def)
  from a show "concat (fetched (Search env ctx s lower upper [])) = [0..NRows s - 1]"
    by (intro fetched_uncancelled[OF lim]) simp_all
qed

theorem C8_first_range_only_witness:
  "Search (machine 2 [0, 1]) never_cancelled (int_series [5, 3, 9, 3, 7]) 3 7
       [\<lparr>Start = Some 0, End = Some 2\<rparr>, \<lparr>Start = Some 3, End = Some 4\<rparr>]
     = Search (machine 2 [0, 1]) never_cancelled (int_series [5, 3, 9, 3, 7]) 3 7
       [\<lparr>Start = Some 0, End = Some 2\<rparr>]
   \<and> ret_rows (Search (machine 2 [0, 1]) never_cancelled (int_series [5, 3, 9, 3, 7]) 3 7
       [\<lparr>Start = Some 0, End = Some 2\<rparr>, \<lparr>Start = Some 3, End = Some 4\<rparr>]) = [0, 1]
   \<and> Limits (machine 2 [0, 1]) \<lparr>Start = None, End = None\<rparr> (NRows (int_series [5, 3, 9, 3, 7]))
       = Inr (0, NRows (int_series [5, 3, 9, 3, 7]) - 1)
   \<and> concat (fetched (Search (machine 2 [0, 1]) never_cancelled (int_series [5, 3, 9, 3, 7]) 3 7 []))
       = [0..NRows (int_series [5, 3, 9, 3, 7]) - 1]
   \<and> concat (fetched (Search (machine 2 [0, 1]) never_cancelled (int_series [5, 3, 9, 3, 7]) 3 7 []))
       = [0, 1, 2, 3, 4]"
proof -
  note c = C8_first_range_only[of "machine 2 [0, 1]" never_cancelled "int_series [5, 3, 9, 3, 7]" 3 7
      "\<lparr>Start = Some 0, End = Some 2\<rparr>" "[\<lparr>Start = Some 3, End = Some 4\<rparr>]"]
  have h1: "set (finish (machine 2 [0, 1])) = {0..<NumCPU (machine 2 [0, 1])}" by code_simp
  have h2: "1 \<le> NumCPU (machine 2 [0, 1])" "1 \<le> NRows (int_series [5, 3, 9, 3, 7])" by code_simp+
  have h3: "\<forall>i. nil_checks never_cancelled i = None" by (simp add: never_cancelled_def)
  have h4: "Limits (machine 2 [0, 1]) \<lparr>Start = None, End = None\<rparr> (NRows (int_series [5, 3, 9, 3, 7]))
       = Inr (0, NRows (int_series [5, 3, 9, 3, 7]) - 1)" by code_simp
  have full: "concat (fetched (Search (machine 2 [0, 1]) never_cancelled (int_series [5, 3, 9, 3, 7]) 3 7 []))
       = [0..NRows (int_series [5, 3, 9, 3, 7]) - 1]"
    using c[THEN conjunct2, THEN conjunct2] h1 h2 h3 h4 by blast
  have v1: "ret_rows (Search (machine 2 [0, 1]) never_cancelled (int_series [5, 3, 9, 3, 7]) 3 7
       [\<lparr>Start = Some 0, End = Some 2\<rparr>, \<lparr>Start = Some 3, End = Some 4\<rparr>]) = [0, 1]" by code_simp
  have v2: "concat (fetched (Search (machine 2 [0, 1]) never_cancelled (int_series [5, 3, 9, 3, 7]) 3 7 []))
       = [0, 1, 2, 3, 4]" by code_simp
  show ?thesis
    using c[THEN conjunct1] h4 full v1 v2 by blast
qed

text \<open>
  Claim C1, at the resolved range \<open>(2, 5)\<close> on two processors. The loop of lines 43 to 60
  computes \<^verbatim>\<open>subStart = i * div\<close> and \<^verbatim>\<open>subEnd = (i+1)*div - 1\<close> without adding \<open>start\<close>:
  the sub-ranges are \<open>[0, 1]\<close> and \<open>[2, 5]\<close> and the rows scanned are \<open>0\<close> to \<open>5\<close>, not
  the rows \<open>2\<close> to \<open>5\<close> of the resolved range.
\<close>

theorem C1_partitions_start_at_zero:
  "Limits (machine 2 [0, 1]) (requested [\<lparr>Start = Some 2, End = None\<rparr>])
       (NRows (int_series [5, 3, 9, 3, 7, 1])) = Inr (2, 5)
   \<and> built (Search (machine 2 [0, 1]) never_cancelled (int_series [5, 3, 9, 3, 7, 1]) 3 7
              [\<lparr>Start = Some 2, End = None\<rparr>])
       = [\<lparr>Start = Some 0, End = Some 1\<rparr>, \<lparr>Start = Some 2, End = Some 5\<rparr>]
   \<and> concat (fetched (Search (machine 2 [0, 1]) never_cancelled (int_series [5, 3, 9, 3, 7, 1]) 3 7
              [\<lparr>Start = Some 2, End = None\<rparr>]))
       = [0, 1, 2, 3, 4, 5]"
  by code_simp

text \<open>
  Claim C2, at the column \<open>[5, 3, 9, 3, 7]\<close> with \<open>lower = 3\<close>, \<open>upper = 7\<close> and the range
  that starts at row \<open>2\<close>, which resolves to \<open>(2, 4)\<close>. The run that is not cancelled
  returns the rows \<open>0, 1, 3, 4\<close>; the sequential scan of the rows \<open>2\<close> to \<open>4\<close> returns
  \<open>3, 4\<close>. The number of processors does not matter: with one processor the only
  sub-range is \<open>[0, 4]\<close>.
\<close>

theorem C2_rows_outside_resolved_range:
  "Limits (machine 2 [0, 1]) (requested [\<lparr>Start = Some 2, End = None\<rparr>])
       (NRows (int_series [5, 3, 9, 3, 7])) = Inr (2, 4)
   \<and> ret_rows (Search (machine 2 [0, 1]) never_cancelled (int_series [5, 3, 9, 3, 7]) 3 7
              [\<lparr>Start = Some 2, End = None\<rparr>]) = [0, 1, 3, 4]
   \<and> ret_rows (Search (machine 1 [0]) never_cancelled (int_series [5, 3, 9, 3, 7]) 3 7
              [\<lparr>Start = Some 2, End = None\<rparr>]) = [0, 1, 3, 4]
   \<and> sequential_scan (int_series [5, 3, 9, 3, 7]) 3 7 2 4 = [3, 4]"
  by code_simp

end
